theory Spec2Isabelle
  imports Main "HOL-Library.Word"
begin

section \<open>Bytes and the byte-string primitives used by the relay\<close>

text \<open>
  Python \<open>bytes\<close> values are lists of 8-bit words. The two JPEG markers are the
  literals \<open>b'\xff\xd8'\<close> and \<open>b'\xff\xd9'\<close> of \<open>stream_proxy.py\<close>, lines 30 and 34.
\<close>

type_synonym byte = "8 word"
type_synonym bytes = "byte list"

definition start_marker :: bytes where
  "start_marker = [0xFF, 0xD8]"

definition end_marker :: bytes where
  "end_marker = [0xFF, 0xD9]"

text \<open>
  \<open>bytes.find(sub, start)\<close>: the lowest index \<open>i \<ge> start\<close> at which \<open>sub\<close> occurs in
  the byte string, or \<open>-1\<close>, which is \<open>None\<close> here. \<open>find_from sub xs i\<close> scans the
  suffix \<open>xs\<close> whose first byte has index \<open>i\<close> in the whole string.
\<close>

fun find_from :: "bytes \<Rightarrow> bytes \<Rightarrow> nat \<Rightarrow> nat option" where
  "find_from sub [] i = (if sub = [] then Some i else None)"
| "find_from sub (x # xs) i =
     (if take (length sub) (x # xs) = sub then Some i else find_from sub xs (Suc i))"

definition find_bytes :: "bytes \<Rightarrow> bytes \<Rightarrow> nat \<Rightarrow> nat option" where
  "find_bytes s sub start =
     (if length s < start then None else find_from sub (drop start s) start)"

text \<open>
  The slice \<open>s[i:j]\<close> for indices \<open>0 \<le> i\<close>, \<open>0 \<le> j\<close>; Python clamps both ends to the
  length and returns the empty string when \<open>j \<le> i\<close>. \<open>s[j:]\<close> is \<open>drop j s\<close>.
\<close>

definition byte_slice :: "bytes \<Rightarrow> nat \<Rightarrow> nat \<Rightarrow> bytes" where
  "byte_slice s i j = take (j - i) (drop i s)"

text \<open>The ASCII bytes of a string literal, as in \<open>b'--frame\r\n'\<close>.\<close>

definition bytes_of :: "string \<Rightarrow> bytes" where
  "bytes_of s = map (\<lambda>c. of_nat (of_char c)) s"

section \<open>The subscriber registry and the sinks\<close>

text \<open>
  A subscriber is the \<open>web.StreamResponse\<close> object of one viewer, identified here by a
  number. \<open>StreamProxy.clients\<close> is a set of these objects; it is a list without
  repetitions here, the list order standing for the order in which \<open>for client in
  self.clients\<close> visits the set. Each \<open>stream_handler\<close> holds its response in a local
  variable for as long as it runs, so an entry never leaves the weak set by garbage
  collection while its handler is alive; entries leave through \<open>discard\<close> only.

  What a subscriber has been sent is the list of byte strings passed to its successful
  \<open>write\<close> calls, oldest first (\<open>sinks\<close>). Whether the next \<open>write\<close> to a subscriber
  succeeds is decided by the subscriber's connection, not by the proxy: it is the
  parameter \<open>wr\<close>, a predicate on the subscriber and on what it has been sent so far.
  A \<open>write\<close> that raises delivers nothing.

  One call of \<open>broadcast_frame\<close> runs to its end before any handler adds or discards a
  subscriber: the model has no interleaving inside the \<open>for\<close> loop of line 54.
\<close>

type_synonym client = nat
type_synonym writable = "client \<Rightarrow> bytes list \<Rightarrow> bool"

record world =
  clients :: "client list"
  sinks :: "client \<Rightarrow> bytes list"

datatype error = WriteError | ConnectError | ReadError

definition add :: "client \<Rightarrow> client list \<Rightarrow> client list" where
  "add c cs = (if c \<in> set cs then cs else cs @ [c])"

definition discard :: "client \<Rightarrow> client list \<Rightarrow> client list" where
  "discard c cs = removeAll c cs"

text \<open>\<open>await client.write(frame_data)\<close>: the data reaches the sink, or the call raises.\<close>

definition client_write ::
  "writable \<Rightarrow> client \<Rightarrow> bytes \<Rightarrow> (client \<Rightarrow> bytes list) \<Rightarrow> error + (client \<Rightarrow> bytes list)" where
  "client_write wr c data sk =
     (if wr c (sk c) then Inr (sk(c := sk c @ [data])) else Inl WriteError)"

section \<open>The broadcaster: \<open>StreamProxy.broadcast_frame\<close>\<close>

definition frame_data :: "bytes \<Rightarrow> bytes" where
  "frame_data frame =
     bytes_of (''--frame'' @ [CHR 0x0D, CHR 0x0A] @ ''Content-Type: image/jpeg''
               @ [CHR 0x0D, CHR 0x0A, CHR 0x0D, CHR 0x0A])
     @ frame @ bytes_of [CHR 0x0D, CHR 0x0A]"

text \<open>
  Lines 53 to 58: the loop over the registry. The bare \<open>except:\<close> catches whatever
  \<open>write\<close> raises and appends the subscriber to \<open>dead_clients\<close>.
\<close>

fun write_all ::
  "writable \<Rightarrow> bytes \<Rightarrow> client list \<Rightarrow> (client \<Rightarrow> bytes list) \<Rightarrow> client list
     \<Rightarrow> (client \<Rightarrow> bytes list) \<times> client list" where
  "write_all wr data [] sk dead = (sk, dead)"
| "write_all wr data (c # cs) sk dead =
     (case client_write wr c data sk of
        Inr sk' \<Rightarrow> write_all wr data cs sk' dead
      | Inl e \<Rightarrow> write_all wr data cs sk (dead @ [c]))"

text \<open>Lines 61 and 62: every subscriber of \<open>dead_clients\<close> is discarded.\<close>

definition broadcast_frame :: "writable \<Rightarrow> bytes \<Rightarrow> world \<Rightarrow> world" where
  "broadcast_frame wr frame w =
     (let (sk, dead) = write_all wr (frame_data frame) (clients w) (sinks w) []
      in w\<lparr>clients := fold discard dead (clients w), sinks := sk\<rparr>)"

text \<open>Frames broadcast one at a time, each call finishing before the next starts.\<close>

fun broadcast_frames :: "writable \<Rightarrow> bytes list \<Rightarrow> world \<Rightarrow> world" where
  "broadcast_frames wr [] w = w"
| "broadcast_frames wr (frame # frames) w =
     broadcast_frames wr frames (broadcast_frame wr frame w)"

section \<open>The subscriber connection handler: \<open>stream_handler\<close>\<close>

text \<open>
  Line 78 registers the response; the \<open>finally\<close> clause of line 87 discards it on
  every way out of the handler.
\<close>

definition handler_enter :: "client \<Rightarrow> world \<Rightarrow> world" where
  "handler_enter c w = w\<lparr>clients := add c (clients w)\<rparr>"

definition handler_exit :: "client \<Rightarrow> world \<Rightarrow> world" where
  "handler_exit c w = w\<lparr>clients := discard c (clients w)\<rparr>"

section \<open>The frame extractor: the loops of \<open>StreamProxy.start_capture\<close>\<close>

text \<open>Lines 43 and 44: a frame is broadcast only while the registry is not empty.\<close>

definition deliver :: "writable \<Rightarrow> bytes \<Rightarrow> world \<Rightarrow> world" where
  "deliver wr frame w = (if clients w \<noteq> [] then broadcast_frame wr frame w else w)"

text \<open>
  Lines 29 to 44, the \<open>while True\<close> loop that runs after a chunk has been appended to
  the buffer. It returns the frames bound to \<open>frame\<close> on line 39, in order (the frames
  the extractor emits), the buffer left when the loop breaks, and the world after the
  broadcasts.
\<close>

function frame_loop :: "writable \<Rightarrow> bytes \<Rightarrow> world \<Rightarrow> bytes list \<times> bytes \<times> world" where
  "frame_loop wr buffer w =
     (case find_bytes buffer start_marker 0 of
        None \<Rightarrow> ([], buffer, w)
      | Some start \<Rightarrow>
          (case find_bytes buffer end_marker start of
             None \<Rightarrow> ([], buffer, w)
           | Some stop \<Rightarrow>
               (let frame = byte_slice buffer start (stop + 2);
                    buffer' = drop (stop + 2) buffer;
                    w' = deliver wr frame w;
                    (frames, rest, w'') = frame_loop wr buffer' w'
                in (frame # frames, rest, w''))))"
  by pat_completeness auto

lemma find_from_bounds:
  "find_from sub xs i = Some e \<Longrightarrow> i \<le> e \<and> (e - i) + length sub \<le> length xs"
proof (induction xs arbitrary: i)
  case Nil
  then show ?case by (simp split: if_splits)
next
  case (Cons x xs)
  show ?case
  proof (cases "take (length sub) (x # xs) = sub")
    case True
    then have "length (take (length sub) (x # xs)) = length sub" by simp
    then have "length sub \<le> length (x # xs)" by (simp del: take_Suc_Cons)
    with True Cons.prems show ?thesis by simp
  next
    case False
    with Cons.prems have "find_from sub xs (Suc i) = Some e" by simp
    from Cons.IH[OF this] show ?thesis by auto
  qed
qed

lemma find_bytes_bounds:
  "find_bytes s sub start = Some e \<Longrightarrow> start \<le> e \<and> e + length sub \<le> length s"
  unfolding find_bytes_def
  by (auto split: if_splits dest!: find_from_bounds)

termination frame_loop
proof (relation "measure (\<lambda>(wr, buffer, w). length buffer)")
  show "wf (measure (\<lambda>(wr, buffer, w). length buffer))" by simp
next
  fix wr :: writable and buffer :: bytes and w :: world and start stop frame buffer' w'
  assume "find_bytes buffer end_marker start = Some stop" and "buffer' = drop (stop + 2) buffer"
  then show "((wr, buffer', w'), (wr, buffer, w)) \<in> measure (\<lambda>(wr, buffer, w). length buffer)"
    using find_bytes_bounds[of buffer end_marker start stop]
    by (auto simp add: end_marker_def)
qed

declare frame_loop.simps [simp del]

text \<open>
  Lines 24 to 44: the buffer starts empty for each response, and every chunk of
  \<open>iter_chunked\<close> is appended to it before the inner loop runs.
\<close>

fun read_chunks :: "writable \<Rightarrow> bytes \<Rightarrow> bytes list \<Rightarrow> world \<Rightarrow> bytes list \<times> bytes \<times> world" where
  "read_chunks wr buffer [] w = ([], buffer, w)"
| "read_chunks wr buffer (chunk # chunks) w =
     (let (frames, buffer', w') = frame_loop wr (buffer @ chunk) w;
          (frames', buffer'', w'') = read_chunks wr buffer' chunks w'
      in (frames @ frames', buffer'', w''))"

section \<open>The upstream capture loop: \<open>StreamProxy.start_capture\<close>\<close>

text \<open>
  What the camera does with one \<open>session.get\<close>: the connection fails, or a response
  arrives with a status, the chunks its body yields, and the way the body ends, cleanly
  or with an exception raised by the read.
\<close>

datatype ending = EndOfStream | Broken

datatype attempt = Refused | Response nat "bytes list" ending

text \<open>
  Lines 22 to 44, the body of the \<open>try\<close>: the frames emitted, the world afterwards, and
  the exception that leaves the body, if any. A response whose status is not 200 is
  released without its body being read.
\<close>

fun capture_once :: "writable \<Rightarrow> attempt \<Rightarrow> world \<Rightarrow> bytes list \<times> world \<times> error option" where
  "capture_once wr Refused w = ([], w, Some ConnectError)"
| "capture_once wr (Response status chunks ending) w =
     (if status = 200 then
        (let (frames, buffer, w') = read_chunks wr [] chunks w
         in (frames, w', case ending of EndOfStream \<Rightarrow> None | Broken \<Rightarrow> Some ReadError))
      else ([], w, None))"

text \<open>
  The observable steps of the loop: a call of \<open>session.get\<close>, a frame emitted by the
  extractor, and \<open>asyncio.sleep(n)\<close>.
\<close>

datatype event = Connect | Emit bytes | Sleep nat

text \<open>
  Lines 20 to 47, \<open>while self.running\<close>. The list holds the outcome of every connection
  made while \<open>running\<close> stays true; the loop is left when the list is used up. Only the
  \<open>except Exception\<close> branch sleeps (line 47).
\<close>

fun start_capture :: "writable \<Rightarrow> attempt list \<Rightarrow> world \<Rightarrow> event list \<times> world" where
  "start_capture wr [] w = ([], w)"
| "start_capture wr (a # rest) w =
     (let (frames, w', raised) = capture_once wr a w;
          backoff = (case raised of Some e \<Rightarrow> [Sleep 1] | None \<Rightarrow> []);
          (events, w'') = start_capture wr rest w'
      in (Connect # map Emit frames @ backoff @ events, w''))"

section \<open>Inputs and predicates used to state the properties\<close>

text \<open>\<open>StreamProxy.__init__\<close>: no subscriber, and nothing sent to anybody yet.\<close>

definition init_world :: world where
  "init_world = \<lparr>clients = [], sinks = (\<lambda>c. [])\<rparr>"

text \<open>Subscribers whose connection accepts every write.\<close>

definition accepting :: writable where
  "accepting c sent = True"

text \<open>Subscriber \<open>d\<close> has closed its connection; every other subscriber accepts.\<close>

definition refusing :: "client \<Rightarrow> writable" where
  "refusing d c sent = (c \<noteq> d)"

text \<open>Three viewers have connected to a fresh proxy: subscribers 1, 2 and 3.\<close>

definition three_viewers :: world where
  "three_viewers = handler_enter 3 (handler_enter 2 (handler_enter 1 init_world))"

text \<open>A byte range that starts with the start marker and ends with the end marker.\<close>

definition jpeg_range :: "bytes \<Rightarrow> bool" where
  "jpeg_range r \<longleftrightarrow> take 2 r = start_marker \<and> drop (length r - 2) r = end_marker"

text \<open>
  A byte range that starts with the start marker and whose first end marker is its
  last two bytes, so that the end marker occurs nowhere else in it.
\<close>

definition plain_range :: "bytes \<Rightarrow> bool" where
  "plain_range r \<longleftrightarrow> take 2 r = start_marker \<and> find_bytes r end_marker 0 = Some (length r - 2)"

text \<open>
  A byte string with no end marker at or after its first start marker (in particular
  one with no start marker at all).
\<close>

definition no_complete_frame :: "bytes \<Rightarrow> bool" where
  "no_complete_frame s =
     (case find_bytes s start_marker 0 of
        None \<Rightarrow> True
      | Some start \<Rightarrow> find_bytes s end_marker start = None)"

section \<open>Properties of the byte search\<close>

lemma find_from_append:
  "find_from sub xs i = Some e \<Longrightarrow> find_from sub (xs @ ys) i = Some e"
proof (induction xs arbitrary: i)
  case Nil
  then show ?case by (cases ys) (simp_all split: if_splits)
next
  case (Cons x xs)
  from find_from_bounds[OF Cons.prems] have len: "length sub \<le> length (x # xs)" by simp
  have "take (length sub) ((x # xs) @ ys)
          = take (length sub) (x # xs) @ take (length sub - length (x # xs)) ys"
    by (rule take_append)
  with len have tk: "take (length sub) ((x # xs) @ ys) = take (length sub) (x # xs)"
    by (simp del: take_Suc_Cons append_Cons)
  show ?case
  proof (cases "take (length sub) (x # xs) = sub")
    case True
    with Cons.prems tk show ?thesis by simp
  next
    case False
    with Cons.prems have "find_from sub xs (Suc i) = Some e" by simp
    from Cons.IH[OF this] False tk show ?thesis by simp
  qed
qed

lemma find_bytes_append:
  "find_bytes s sub start = Some e \<Longrightarrow> find_bytes (s @ t) sub start = Some e"
  unfolding find_bytes_def
  by (auto split: if_splits simp: find_from_append)

lemma find_from_hit:
  "find_from sub xs i = Some e \<Longrightarrow> take (length sub) (drop (e - i) xs) = sub"
proof (induction xs arbitrary: i)
  case Nil
  then show ?case by (simp split: if_splits)
next
  case (Cons x xs)
  show ?case
  proof (cases "take (length sub) (x # xs) = sub")
    case True
    with Cons.prems show ?thesis by simp
  next
    case False
    with Cons.prems have f: "find_from sub xs (Suc i) = Some e" by simp
    from find_from_bounds[OF f] have "e - i = Suc (e - Suc i)" by auto
    with Cons.IH[OF f] show ?thesis by simp
  qed
qed

lemma find_from_first:
  "find_from sub xs i = Some e \<Longrightarrow> j < e - i \<Longrightarrow> take (length sub) (drop j xs) \<noteq> sub"
proof (induction xs arbitrary: i j)
  case Nil
  then show ?case by (simp split: if_splits)
next
  case (Cons x xs)
  show ?case
  proof (cases "take (length sub) (x # xs) = sub")
    case True
    with Cons.prems show ?thesis by simp
  next
    case False
    with Cons.prems have f: "find_from sub xs (Suc i) = Some e" by simp
    show ?thesis
    proof (cases j)
      case 0
      with False show ?thesis by simp
    next
      case (Suc k)
      with Cons.prems(2) have "k < e - Suc i" by simp
      from Cons.IH[OF f this] Suc show ?thesis by simp
    qed
  qed
qed

lemma find_from_none:
  "find_from sub xs i = None \<Longrightarrow> j \<le> length xs \<Longrightarrow> take (length sub) (drop j xs) \<noteq> sub"
proof (induction xs arbitrary: i j)
  case Nil
  then show ?case by (auto split: if_splits)
next
  case (Cons x xs)
  from Cons.prems(1) have nf: "take (length sub) (x # xs) \<noteq> sub" and f: "find_from sub xs (Suc i) = None"
    by (simp_all split: if_splits)
  show ?case
  proof (cases j)
    case 0
    with nf show ?thesis by simp
  next
    case (Suc k)
    with Cons.prems(2) have "k \<le> length xs" by simp
    from Cons.IH[OF f this] Suc show ?thesis by simp
  qed
qed

lemma find_from_intro:
  "take (length sub) (drop k xs) = sub \<Longrightarrow> k \<le> length xs \<Longrightarrow>
   (\<And>j. j < k \<Longrightarrow> take (length sub) (drop j xs) \<noteq> sub) \<Longrightarrow>
   find_from sub xs i = Some (i + k)"
proof (induction xs arbitrary: i k)
  case Nil
  then show ?case by auto
next
  case (Cons x xs)
  show ?case
  proof (cases k)
    case 0
    with Cons.prems(1) show ?thesis by simp
  next
    case (Suc m)
    with Cons.prems(3)[of 0] have nf: "take (length sub) (x # xs) \<noteq> sub" by simp
    from Suc Cons.prems(1) have a: "take (length sub) (drop m xs) = sub" by simp
    from Suc Cons.prems(2) have b: "m \<le> length xs" by simp
    have c: "\<And>j. j < m \<Longrightarrow> take (length sub) (drop j xs) \<noteq> sub"
      using Cons.prems(3)[of "Suc j" for j] Suc by simp
    from Cons.IH[OF a b c, of "Suc i"] nf Suc show ?thesis by simp
  qed
qed


lemma find_bytes_hit:
  "find_bytes s sub start = Some e \<Longrightarrow> take (length sub) (drop e s) = sub"
proof -
  assume a: "find_bytes s sub start = Some e"
  then have f: "find_from sub (drop start s) start = Some e" and le: "start \<le> length s"
    by (simp_all add: find_bytes_def split: if_splits)
  from find_from_bounds[OF f] have "start \<le> e" by simp
  with find_from_hit[OF f] show ?thesis by simp
qed

lemma find_bytes_first:
  assumes "find_bytes s sub start = Some e" and "start \<le> j" and "j < e"
  shows "take (length sub) (drop j s) \<noteq> sub"
proof -
  from assms(1) have f: "find_from sub (drop start s) start = Some e"
    by (simp add: find_bytes_def split: if_splits)
  from assms have "j - start < e - start" by simp
  from find_from_first[OF f this] assms(2) show ?thesis by simp
qed

lemma find_bytes_none:
  assumes "find_bytes s sub start = None" and "start \<le> j" and "j \<le> length s"
  shows "take (length sub) (drop j s) \<noteq> sub"
proof -
  from assms have f: "find_from sub (drop start s) start = None"
    by (simp add: find_bytes_def split: if_splits)
  from assms have "j - start \<le> length (drop start s)" by simp
  from find_from_none[OF f this] assms(2) show ?thesis by simp
qed

lemma find_bytes_intro:
  assumes "take (length sub) (drop k s) = sub" and "start \<le> k" and "k \<le> length s"
    and "\<And>j. start \<le> j \<Longrightarrow> j < k \<Longrightarrow> take (length sub) (drop j s) \<noteq> sub"
  shows "find_bytes s sub start = Some k"
proof -
  from assms(1,2) have a: "take (length sub) (drop (k - start) (drop start s)) = sub" by simp
  from assms(2,3) have b: "k - start \<le> length (drop start s)" by simp
  have c: "\<And>j. j < k - start \<Longrightarrow> take (length sub) (drop j (drop start s)) \<noteq> sub"
  proof -
    fix j assume "j < k - start"
    then have "start \<le> j + start" and "j + start < k" by simp_all
    from assms(4)[OF this] show "take (length sub) (drop j (drop start s)) \<noteq> sub"
      by (simp add: add.commute)
  qed
  from find_from_intro[OF a b c, of start] assms(2,3) show ?thesis
    by (simp add: find_bytes_def)
qed

lemma take2_nth:
  "take 2 (drop j s) = [a, c] \<Longrightarrow> j + 2 \<le> length s \<and> s ! j = a \<and> s ! Suc j = c"
proof -
  assume h: "take 2 (drop j s) = [a, c]"
  then have "length (take 2 (drop j s)) = 2" by simp
  then have len: "j + 2 \<le> length s" by simp
  have "take 2 (drop j s) ! 0 = s ! j" "take 2 (drop j s) ! 1 = s ! Suc j"
    using len by simp_all
  with h len show ?thesis by simp
qed

lemma marker_gap:
  assumes "find_bytes b start_marker 0 = Some s" and "find_bytes b end_marker s = Some e"
  shows "s + 2 \<le> e"
proof -
  from find_bytes_hit[OF assms(1)] have "take 2 (drop s b) = [0xFF, 0xD8]"
    by (simp add: start_marker_def numeral_2_eq_2)
  from take2_nth[OF this] have s1: "b ! s = 0xFF" "b ! Suc s = 0xD8" by simp_all
  from find_bytes_hit[OF assms(2)] have "take 2 (drop e b) = [0xFF, 0xD9]"
    by (simp add: end_marker_def numeral_2_eq_2)
  from take2_nth[OF this] have e1: "b ! e = 0xFF" "b ! Suc e = 0xD9" by simp_all
  from find_bytes_bounds[OF assms(2)] have "s \<le> e" by simp
  moreover have "e \<noteq> s" using s1 e1 by auto
  moreover have "e \<noteq> Suc s" using s1 e1 by auto
  ultimately show ?thesis by simp
qed

lemma frame_loop_no_start:
  "find_bytes b start_marker 0 = None \<Longrightarrow> frame_loop wr b w = ([], b, w)"
  by (simp add: frame_loop.simps)

lemma frame_loop_no_end:
  "find_bytes b start_marker 0 = Some s \<Longrightarrow> find_bytes b end_marker s = None \<Longrightarrow>
   frame_loop wr b w = ([], b, w)"
  by (simp add: frame_loop.simps)

lemma frame_loop_frame:
  "find_bytes b start_marker 0 = Some s \<Longrightarrow> find_bytes b end_marker s = Some e \<Longrightarrow>
   frame_loop wr b w =
     (case frame_loop wr (drop (e + 2) b) (deliver wr (byte_slice b s (e + 2)) w) of
        (frames, rest, w') \<Rightarrow> (byte_slice b s (e + 2) # frames, rest, w'))"
  by (subst frame_loop.simps) (simp add: Let_def)

section \<open>The extractor does not depend on how the stream is cut into chunks\<close>

lemma frame_loop_append:
  "frame_loop wr (b @ c) w =
     (case frame_loop wr b w of
        (fs0, b0, w0) \<Rightarrow> (case frame_loop wr (b0 @ c) w0 of
                            (fs1, b1, w1) \<Rightarrow> (fs0 @ fs1, b1, w1)))"
proof (induction wr b w rule: frame_loop.induct)
  case (1 wr buffer w)
  show ?case
  proof (cases "find_bytes buffer start_marker 0")
    case None
    then show ?thesis by (simp add: frame_loop_no_start split: prod.splits)
  next
    case (Some s)
    note st = Some
    show ?thesis
    proof (cases "find_bytes buffer end_marker s")
      case None
      with st show ?thesis by (simp add: frame_loop_no_end split: prod.splits)
    next
      case (Some e)
      from find_bytes_bounds[OF Some] have len: "e + 2 \<le> length buffer"
        by (simp add: end_marker_def)
      have st': "find_bytes (buffer @ c) start_marker 0 = Some s"
        using st by (rule find_bytes_append)
      have en': "find_bytes (buffer @ c) end_marker s = Some e"
        using Some by (rule find_bytes_append)
      from len have dr: "drop (e + 2) (buffer @ c) = drop (e + 2) buffer @ c" by simp
      from len have sl: "byte_slice (buffer @ c) s (e + 2) = byte_slice buffer s (e + 2)"
        by (simp add: byte_slice_def)
      note ih = "1.IH"[OF st Some refl refl refl]
      show ?thesis
        by (simp only: frame_loop_frame[OF st' en'] frame_loop_frame[OF st Some] dr sl ih)
           (simp split: prod.splits)
    qed
  qed
qed

lemma frame_loop_rest:
  "no_complete_frame (fst (snd (frame_loop wr b w)))"
proof (induction wr b w rule: frame_loop.induct)
  case (1 wr buffer w)
  show ?case
  proof (cases "find_bytes buffer start_marker 0")
    case None
    then show ?thesis by (simp add: frame_loop_no_start no_complete_frame_def)
  next
    case (Some s)
    note st = Some
    show ?thesis
    proof (cases "find_bytes buffer end_marker s")
      case None
      with st show ?thesis by (simp add: frame_loop_no_end no_complete_frame_def)
    next
      case (Some e)
      note ih = "1.IH"[OF st Some refl refl refl]
      then show ?thesis
        by (auto simp add: frame_loop_frame[OF st Some] split: prod.splits)
    qed
  qed
qed

lemma frame_loop_idle:
  "no_complete_frame b \<Longrightarrow> frame_loop wr b w = ([], b, w)"
  by (cases "find_bytes b start_marker 0")
     (simp_all add: no_complete_frame_def frame_loop_no_start frame_loop_no_end)

lemma read_chunks_concat:
  "no_complete_frame b \<Longrightarrow> read_chunks wr b chunks w = frame_loop wr (b @ concat chunks) w"
proof (induction chunks arbitrary: b w)
  case Nil
  then show ?case by (simp add: frame_loop_idle)
next
  case (Cons chunk chunks)
  obtain fs b1 w1 where r: "frame_loop wr (b @ chunk) w = (fs, b1, w1)"
    by (cases "frame_loop wr (b @ chunk) w") auto
  from frame_loop_rest[of wr "b @ chunk" w] r have "no_complete_frame b1" by simp
  from Cons.IH[OF this] have ih: "read_chunks wr b1 chunks w1 = frame_loop wr (b1 @ concat chunks) w1" .
  have "frame_loop wr ((b @ chunk) @ concat chunks) w =
          (case frame_loop wr (b1 @ concat chunks) w1 of (fs1, b2, w2) \<Rightarrow> (fs @ fs1, b2, w2))"
    by (simp only: frame_loop_append[of wr "b @ chunk"] r) simp
  with r ih show ?case by (simp split: prod.splits)
qed

lemma no_complete_frame_Nil: "no_complete_frame []"
  by (simp add: no_complete_frame_def find_bytes_def start_marker_def)

lemma read_chunks_whole:
  "read_chunks wr [] chunks w = frame_loop wr (concat chunks) w"
  using read_chunks_concat[OF no_complete_frame_Nil] by simp

section \<open>What one broadcast does\<close>

lemma write_all_distinct:
  "distinct cs \<Longrightarrow>
   write_all wr data cs sk dead =
     ((\<lambda>c. if c \<in> set cs \<and> wr c (sk c) then sk c @ [data] else sk c),
      dead @ filter (\<lambda>c. \<not> wr c (sk c)) cs)"
proof (induction cs arbitrary: sk dead)
  case Nil
  then show ?case by simp
next
  case (Cons c cs)
  from Cons.prems have d: "distinct cs" and nin: "c \<notin> set cs" by simp_all
  show ?case
  proof (cases "wr c (sk c)")
    case True
    let ?sk = "sk(c := sk c @ [data])"
    have same: "\<And>x. x \<in> set cs \<Longrightarrow> ?sk x = sk x" using nin by auto
    have f: "filter (\<lambda>x. \<not> wr x (?sk x)) cs = filter (\<lambda>x. \<not> wr x (sk x)) cs"
      by (rule filter_cong[OF refl]) (use nin in auto)
    have g: "(\<lambda>x. if x \<in> set cs \<and> wr x (?sk x) then ?sk x @ [data] else ?sk x)
           = (\<lambda>x. if x \<in> set (c # cs) \<and> wr x (sk x) then sk x @ [data] else sk x)"
    proof
      fix x
      show "(if x \<in> set cs \<and> wr x (?sk x) then ?sk x @ [data] else ?sk x)
          = (if x \<in> set (c # cs) \<and> wr x (sk x) then sk x @ [data] else sk x)"
      proof (cases "x = c")
        case True
        with nin \<open>wr c (sk c)\<close> show ?thesis by simp
      next
        case False
        then show ?thesis by simp
      qed
    qed
    have "write_all wr data (c # cs) sk dead = write_all wr data cs ?sk dead"
      using True by (simp add: client_write_def)
    also have "\<dots> = ((\<lambda>x. if x \<in> set cs \<and> wr x (?sk x) then ?sk x @ [data] else ?sk x),
                      dead @ filter (\<lambda>x. \<not> wr x (?sk x)) cs)"
      by (rule Cons.IH[OF d])
    finally show ?thesis using True by (simp only: f g) simp
  next
    case False
    have g: "(\<lambda>x. if x \<in> set cs \<and> wr x (sk x) then sk x @ [data] else sk x)
           = (\<lambda>x. if x \<in> set (c # cs) \<and> wr x (sk x) then sk x @ [data] else sk x)"
    proof
      fix x
      show "(if x \<in> set cs \<and> wr x (sk x) then sk x @ [data] else sk x)
          = (if x \<in> set (c # cs) \<and> wr x (sk x) then sk x @ [data] else sk x)"
        using False by (cases "x = c") simp_all
    qed
    have "write_all wr data (c # cs) sk dead = write_all wr data cs sk (dead @ [c])"
      using False by (simp add: client_write_def)
    also have "\<dots> = ((\<lambda>x. if x \<in> set cs \<and> wr x (sk x) then sk x @ [data] else sk x),
                      (dead @ [c]) @ filter (\<lambda>x. \<not> wr x (sk x)) cs)"
      by (rule Cons.IH[OF d])
    finally show ?thesis using False by (simp only: g) simp
  qed
qed

lemma fold_discard:
  "fold discard dead cs = filter (\<lambda>c. c \<notin> set dead) cs"
proof (induction dead arbitrary: cs)
  case Nil
  then show ?case by simp
next
  case (Cons d dead)
  have "fold discard (d # dead) cs = filter (\<lambda>c. c \<notin> set dead) (filter (\<lambda>y. d \<noteq> y) cs)"
    by (simp add: Cons.IH discard_def removeAll_filter_not_eq)
  also have "\<dots> = filter (\<lambda>c. c \<notin> set (d # dead)) cs"
    by (simp del: set_simps) (rule filter_cong[OF refl], auto)
  finally show ?case .
qed

lemma broadcast_frame_clients:
  assumes "distinct (clients w)"
  shows "clients (broadcast_frame wr frame w) = filter (\<lambda>c. wr c (sinks w c)) (clients w)"
proof -
  have "filter (\<lambda>c. c \<notin> set (filter (\<lambda>c. \<not> wr c (sinks w c)) (clients w))) (clients w)
        = filter (\<lambda>c. wr c (sinks w c)) (clients w)"
    by (rule filter_cong[OF refl]) auto
  then show ?thesis
    by (simp add: broadcast_frame_def write_all_distinct[OF assms] fold_discard)
qed

lemma broadcast_frame_sinks:
  assumes "distinct (clients w)"
  shows "sinks (broadcast_frame wr frame w) c =
           (if c \<in> set (clients w) \<and> wr c (sinks w c) then sinks w c @ [frame_data frame]
            else sinks w c)"
  by (simp add: broadcast_frame_def write_all_distinct[OF assms])

lemma broadcast_frame_distinct:
  "distinct (clients w) \<Longrightarrow> distinct (clients (broadcast_frame wr frame w))"
  by (simp add: broadcast_frame_clients)

lemma discard_absent: "c \<notin> set cs \<Longrightarrow> discard c cs = cs"
  by (simp add: discard_def)

lemma three_viewers_eval:
  "clients three_viewers = [1, 2, 3]" "sinks three_viewers c = []"
  by (simp_all add: three_viewers_def handler_enter_def add_def init_world_def)

section \<open>The shape of an extracted frame\<close>

lemma cut_shape:
  assumes st: "find_bytes b start_marker 0 = Some s"
    and en: "find_bytes b end_marker s = Some e"
  shows "length (byte_slice b s (e + 2)) = e + 2 - s"
    and "4 \<le> length (byte_slice b s (e + 2))"
    and "take 2 (byte_slice b s (e + 2)) = start_marker"
    and "drop (length (byte_slice b s (e + 2)) - 2) (byte_slice b s (e + 2)) = end_marker"
    and "find_bytes (byte_slice b s (e + 2)) end_marker 0 = Some (length (byte_slice b s (e + 2)) - 2)"
proof -
  let ?f = "byte_slice b s (e + 2)"
  from marker_gap[OF st en] have gap: "s + 2 \<le> e" .
  from find_bytes_bounds[OF en] have eb: "e + 2 \<le> length b" by (simp add: end_marker_def)
  from find_bytes_hit[OF st] have sm: "take 2 (drop s b) = start_marker"
    by (simp add: start_marker_def numeral_2_eq_2)
  from find_bytes_hit[OF en] have em: "take 2 (drop e b) = end_marker"
    by (simp add: end_marker_def numeral_2_eq_2)
  show len: "length ?f = e + 2 - s" using eb gap by (simp add: byte_slice_def)
  with gap show "4 \<le> length ?f" by simp
  have inner: "take 2 (drop j ?f) = take 2 (drop (s + j) b)" if "j + 2 \<le> e + 2 - s" for j
  proof -
    have "drop j ?f = take (e + 2 - s - j) (drop (s + j) b)"
      by (simp add: byte_slice_def drop_take add.commute)
    moreover have "min 2 (e + 2 - s - j) = 2" using that by simp
    ultimately show ?thesis by (simp add: min.commute)
  qed
  from inner[of 0] gap sm show "take 2 ?f = start_marker" by simp
  have le: "length ?f - 2 = e - s" using len gap by simp
  have "drop (e - s) ?f = take 2 (drop e b)"
    using gap by (simp add: byte_slice_def drop_take)
  with em le show "drop (length ?f - 2) ?f = end_marker" by simp
  have a: "take (length end_marker) (drop (e - s) ?f) = end_marker"
    using inner[of "e - s"] gap em by (simp add: end_marker_def numeral_2_eq_2)
  have b: "e - s \<le> length ?f" using len by simp
  have c: "take (length end_marker) (drop j ?f) \<noteq> end_marker" if "0 \<le> j" "j < e - s" for j
  proof -
    from that have "j + 2 \<le> e + 2 - s" by simp
    from inner[OF this] have "take 2 (drop j ?f) = take 2 (drop (s + j) b)" .
    moreover have "take (length end_marker) (drop (s + j) b) \<noteq> end_marker"
      using find_bytes_first[OF en, of "s + j"] that by simp
    ultimately show ?thesis by (simp add: end_marker_def numeral_2_eq_2)
  qed
  from find_bytes_intro[OF a _ b c] le
  show "find_bytes ?f end_marker 0 = Some (length ?f - 2)" by simp
qed

lemma frame_loop_frames:
  "f \<in> set (fst (frame_loop wr b w)) \<Longrightarrow>
   4 \<le> length f \<and> take 2 f = start_marker \<and> drop (length f - 2) f = end_marker
   \<and> find_bytes f end_marker 0 = Some (length f - 2)"
proof (induction wr b w rule: frame_loop.induct)
  case (1 wr buffer w)
  show ?case
  proof (cases "find_bytes buffer start_marker 0")
    case None
    with "1.prems" show ?thesis by (simp add: frame_loop_no_start)
  next
    case (Some s)
    note st = Some
    show ?thesis
    proof (cases "find_bytes buffer end_marker s")
      case None
      with st "1.prems" show ?thesis by (simp add: frame_loop_no_end)
    next
      case (Some e)
      from "1.prems" have
        "f = byte_slice buffer s (e + 2)
         \<or> f \<in> set (fst (frame_loop wr (drop (e + 2) buffer)
                         (deliver wr (byte_slice buffer s (e + 2)) w)))"
        by (auto simp add: frame_loop_frame[OF st Some] split: prod.splits)
      then show ?thesis
      proof
        assume "f = byte_slice buffer s (e + 2)"
        with cut_shape[OF st Some] show ?thesis by simp
      next
        assume "f \<in> set (fst (frame_loop wr (drop (e + 2) buffer)
                         (deliver wr (byte_slice buffer s (e + 2)) w)))"
        then show ?thesis by (rule "1.IH"[OF st Some refl refl refl])
      qed
    qed
  qed
qed

lemma end_marker_only_last:
  assumes "find_bytes f end_marker 0 = Some (length f - 2)" and "j + 2 < length f"
  shows "take 2 (drop j f) \<noteq> end_marker"
proof -
  from assms(2) have "j < length f - 2" by simp
  from find_bytes_first[OF assms(1) _ this] show ?thesis
    by (simp add: end_marker_def numeral_2_eq_2)
qed

section \<open>The claims\<close>

text \<open>
  Claim C9. Removing a subscriber that is not in the registry changes nothing and
  raises nothing: \<open>discard\<close> returns the registry as it was, so the \<open>finally\<close> clause of
  \<open>stream_handler\<close> leaves the proxy unchanged when its subscriber is absent; this is
  the case after \<open>broadcast_frame\<close> has removed the subscriber for a failed write.
\<close>

theorem discard_absent_is_noop:
  "(c \<notin> set cs \<longrightarrow> discard c cs = cs)
   \<and> (c \<notin> set (clients w) \<longrightarrow> handler_exit c w = w)
   \<and> (distinct (clients w) \<and> \<not> wr c (sinks w c) \<longrightarrow>
        c \<notin> set (clients (broadcast_frame wr frame w))
        \<and> handler_exit c (broadcast_frame wr frame w) = broadcast_frame wr frame w)"
proof (intro conjI impI)
  show "discard c cs = cs" if "c \<notin> set cs" using that by (rule discard_absent)
  show "handler_exit c w = w" if "c \<notin> set (clients w)"
    using that by (simp add: handler_exit_def discard_absent)
  assume h: "distinct (clients w) \<and> \<not> wr c (sinks w c)"
  then show gone: "c \<notin> set (clients (broadcast_frame wr frame w))"
    by (simp add: broadcast_frame_clients)
  then show "handler_exit c (broadcast_frame wr frame w) = broadcast_frame wr frame w"
    by (simp add: handler_exit_def discard_absent)
qed

theorem discard_absent_is_noop_witness:
  "((4::client) \<notin> set [1, 2, 3] \<and> discard 4 [1, 2, 3] = [1, 2, 3])
   \<and> (4 \<notin> set (clients three_viewers) \<and> handler_exit 4 three_viewers = three_viewers)
   \<and> (distinct (clients three_viewers) \<and> \<not> refusing 2 2 (sinks three_viewers 2)
        \<and> 2 \<notin> set (clients (broadcast_frame (refusing 2) [0xFF, 0xD8, 0xFF, 0xD9] three_viewers))
        \<and> handler_exit 2 (broadcast_frame (refusing 2) [0xFF, 0xD8, 0xFF, 0xD9] three_viewers)
            = broadcast_frame (refusing 2) [0xFF, 0xD8, 0xFF, 0xD9] three_viewers)"
  using discard_absent_is_noop[of 4 "[1, 2, 3]" three_viewers "refusing 2" "[0xFF, 0xD8, 0xFF, 0xD9]"]
        discard_absent_is_noop[of 2 "[1, 2, 3]" three_viewers "refusing 2" "[0xFF, 0xD8, 0xFF, 0xD9]"]
  by (simp add: three_viewers_eval refusing_def)

text \<open>
  Claim C10. What one broadcast writes to a subscriber is the frame wrapped in the
  multipart framing and nothing else: a registered subscriber whose write succeeds is
  sent exactly one byte string, the bytes of \<open>--frame\r\nContent-Type: image/jpeg\r\n\r\n\<close>
  followed by the frame and by \<open>\r\n\<close>; every other sink is left as it was.
\<close>

theorem broadcast_writes_one_part:
  assumes "distinct (clients w)"
  shows "sinks (broadcast_frame wr frame w) c =
           (if c \<in> set (clients w) \<and> wr c (sinks w c)
            then sinks w c @
                 [[0x2D, 0x2D, 0x66, 0x72, 0x61, 0x6D, 0x65, 0x0D, 0x0A,
                   0x43, 0x6F, 0x6E, 0x74, 0x65, 0x6E, 0x74, 0x2D, 0x54, 0x79, 0x70, 0x65,
                   0x3A, 0x20, 0x69, 0x6D, 0x61, 0x67, 0x65, 0x2F, 0x6A, 0x70, 0x65, 0x67,
                   0x0D, 0x0A, 0x0D, 0x0A] @ frame @ [0x0D, 0x0A]]
            else sinks w c)"
proof -
  have "frame_data frame =
          [0x2D, 0x2D, 0x66, 0x72, 0x61, 0x6D, 0x65, 0x0D, 0x0A,
           0x43, 0x6F, 0x6E, 0x74, 0x65, 0x6E, 0x74, 0x2D, 0x54, 0x79, 0x70, 0x65,
           0x3A, 0x20, 0x69, 0x6D, 0x61, 0x67, 0x65, 0x2F, 0x6A, 0x70, 0x65, 0x67,
           0x0D, 0x0A, 0x0D, 0x0A] @ frame @ [0x0D, 0x0A]"
    by (simp add: frame_data_def bytes_of_def)
  then show ?thesis by (simp only: broadcast_frame_sinks[OF assms])
qed

theorem broadcast_writes_one_part_witness:
  "distinct (clients three_viewers)
   \<and> sinks (broadcast_frame accepting [0xFF, 0xD8, 0xFF, 0xD9] three_viewers) 1 =
       [[0x2D, 0x2D, 0x66, 0x72, 0x61, 0x6D, 0x65, 0x0D, 0x0A,
         0x43, 0x6F, 0x6E, 0x74, 0x65, 0x6E, 0x74, 0x2D, 0x54, 0x79, 0x70, 0x65,
         0x3A, 0x20, 0x69, 0x6D, 0x61, 0x67, 0x65, 0x2F, 0x6A, 0x70, 0x65, 0x67,
         0x0D, 0x0A, 0x0D, 0x0A, 0xFF, 0xD8, 0xFF, 0xD9, 0x0D, 0x0A]]"
proof -
  have d: "distinct (clients three_viewers)" by (simp add: three_viewers_eval)
  show ?thesis
    using d broadcast_writes_one_part[OF d, of accepting "[0xFF, 0xD8, 0xFF, 0xD9]" 1]
    by (simp add: three_viewers_eval accepting_def)
qed

end
